theory Spec2Isabelle
  imports Complex_Main "HOL-Library.Char_ord" "HOL-Library.List_Lexorder" "HOL-Library.Log_Nat"
begin

section \<open>The rules engine and the board object\<close>

text \<open>
  The strategies of \<^verbatim>\<open>homemade.py\<close> consume the chess rules engine (the
  \<^verbatim>\<open>chess\<close> package) through a narrow interface. The engine is not part of the
  module, so it is a parameter of every definition below: a record of the functions the
  module calls. \<^verbatim>\<open>chess.WHITE\<close> is \<^verbatim>\<open>True\<close> and \<^verbatim>\<open>chess.BLACK\<close> is
  \<^verbatim>\<open>False\<close>, and \<^verbatim>\<open>board.turn\<close> is that boolean. Strings are compared
  lexicographically by character code, as Python compares \<^verbatim>\<open>str\<close> values.
\<close>

datatype piece_type = PAWN | KNIGHT | BISHOP | ROOK | QUEEN | KING

abbreviation (input) WHITE :: bool where "WHITE \<equiv> True"
abbreviation (input) BLACK :: bool where "BLACK \<equiv> False"

record ('p, 'm) rules =
  legal_moves :: "'p \<Rightarrow> 'm list"
  make_move :: "'p \<Rightarrow> 'm \<Rightarrow> 'p"
  turn :: "'p \<Rightarrow> bool"
  pieces :: "'p \<Rightarrow> piece_type \<Rightarrow> bool \<Rightarrow> nat set"
  san :: "'p \<Rightarrow> 'm \<Rightarrow> string"
  uci :: "'m \<Rightarrow> string"

text \<open>
  A \<^verbatim>\<open>chess.Board\<close> object is the current position together with the stack that
  \<^verbatim>\<open>push\<close> grows and \<^verbatim>\<open>pop\<close> shrinks: each entry keeps the position to
  restore and the move that was played. \<^verbatim>\<open>pop\<close> on an empty stack raises
  \<^verbatim>\<open>IndexError\<close>; \<^verbatim>\<open>copy\<close> duplicates position and stack. The other exception
  of the module is the \<^verbatim>\<open>OverflowError\<close> of an int that does not fit a float.
\<close>

record ('p, 'm) board =
  position :: 'p
  stack :: "('p \<times> 'm) list"

datatype py_error = IndexError | OverflowError

definition push :: "('p, 'm) rules \<Rightarrow> ('p, 'm) board \<Rightarrow> 'm \<Rightarrow> ('p, 'm) board" where
  "push E b m = \<lparr>position = make_move E (position b) m, stack = (position b, m) # stack b\<rparr>"

definition pop :: "('p, 'm) board \<Rightarrow> py_error + ('p, 'm) board" where
  "pop b = (case stack b of
              [] \<Rightarrow> Inl IndexError
            | (p, m) # rest \<Rightarrow> Inr \<lparr>position = p, stack = rest\<rparr>)"

definition copy :: "('p, 'm) board \<Rightarrow> ('p, 'm) board" where
  "copy b = \<lparr>position = position b, stack = stack b\<rparr>"

record 'm play_result =
  move :: "'m option"
  ponder :: "'m option"
  draw_offered :: bool

definition PlayResult :: "'m option \<Rightarrow> 'm option \<Rightarrow> 'm play_result" where
  "PlayResult mv pd = \<lparr>move = mv, ponder = pd, draw_offered = False\<rparr>"

section \<open>Sciasa: material evaluation\<close>

definition piece_values :: "(piece_type \<times> int) list" where
  "piece_values = [(PAWN, 1), (KNIGHT, 3), (BISHOP, 3), (ROOK, 5), (QUEEN, 9)]"

text \<open>
  The loop of \<^verbatim>\<open>evaluate_board\<close> visits the keys of the table in insertion order;
  each round adds white's count times the value and then subtracts black's.
  \<^verbatim>\<open>len(board.pieces(t, c))\<close> is the number of squares in the returned square set.
\<close>

definition evaluate_board :: "('p, 'm) rules \<Rightarrow> ('p, 'm) board \<Rightarrow> int" where
  "evaluate_board E b =
     foldl (\<lambda>score (piece_type, v).
              (score + int (card (pieces E (position b) piece_type WHITE)) * v)
                - int (card (pieces E (position b) piece_type BLACK)) * v)
           0 piece_values"

text \<open>The spec's reading of the evaluator: the weighted material difference.\<close>

definition material :: "('p, 'm) rules \<Rightarrow> 'p \<Rightarrow> piece_type \<Rightarrow> int" where
  "material E p t = int (card (pieces E p t WHITE)) - int (card (pieces E p t BLACK))"

definition spec_evaluate :: "('p, 'm) rules \<Rightarrow> 'p \<Rightarrow> int" where
  "spec_evaluate E p = (\<Sum>(t, v) \<leftarrow> piece_values. material E p t * v)"

section \<open>Sciasa: breadth-first search\<close>

text \<open>
  \<^verbatim>\<open>search\<close> receives the caller's board by reference and works on copies, so the
  boards live in a store: a list of board objects, an object's address being its index.
  \<^verbatim>\<open>board.copy()\<close> allocates a new object at the end of the store. A queue item is
  (address of the board, depth, leading move). \<^verbatim>\<open>best_evaluation\<close> starts as
  \<^verbatim>\<open>float('-inf')\<close> or \<^verbatim>\<open>float('inf')\<close> and holds an evaluation afterwards.
\<close>

datatype arg = IntArg int | OtherArg

datatype bound = NegInf | PosInf | Eval int

fun exceeds :: "int \<Rightarrow> bound \<Rightarrow> bool" where
  "exceeds e NegInf = True"
| "exceeds e PosInf = False"
| "exceeds e (Eval b) = (e > b)"

fun below :: "int \<Rightarrow> bound \<Rightarrow> bool" where
  "below e NegInf = False"
| "below e PosInf = True"
| "below e (Eval b) = (e < b)"

record ('p, 'm) search_state =
  boards :: "('p, 'm) board list"
  queue :: "(nat \<times> int \<times> 'm option) list"
  best_move :: "'m option"
  best_evaluation :: bound

text \<open>
  The branch taken when \<^verbatim>\<open>current_depth >= depth\<close>: evaluate the node and keep its
  leading move if the evaluation is strictly better for the side to move on the caller's
  board (\<^verbatim>\<open>board.turn\<close> is read from the caller's object each time).
\<close>

definition visit ::
  "('p, 'm) rules \<Rightarrow> nat \<Rightarrow> nat \<Rightarrow> 'm option \<Rightarrow> ('p, 'm) search_state \<Rightarrow> ('p, 'm) search_state" where
  "visit E board current_board leading_move s =
     (let evaluation = evaluate_board E (boards s ! current_board) in
      if turn E (position (boards s ! board)) then
        (if exceeds evaluation (best_evaluation s)
         then s\<lparr>best_evaluation := Eval evaluation, best_move := leading_move\<rparr>
         else s)
      else
        (if below evaluation (best_evaluation s)
         then s\<lparr>best_evaluation := Eval evaluation, best_move := leading_move\<rparr>
         else s))"

text \<open>
  The \<^verbatim>\<open>for move in current_board.legal_moves\<close> loop: push the move on the board at
  \<^verbatim>\<open>current_board\<close>, append a copy of it to the queue with the depth plus one and the
  move just played, pop the move again. The moves are those of the position at the start
  of the loop; every round restores that position before the generator is asked again.
\<close>

fun expand ::
  "('p, 'm) rules \<Rightarrow> nat \<Rightarrow> int \<Rightarrow> 'm list \<Rightarrow> ('p, 'm) search_state
     \<Rightarrow> py_error + ('p, 'm) search_state" where
  "expand E current_board current_depth [] s = Inr s"
| "expand E current_board current_depth (m # ms) s =
     (let pushed = (boards s)[current_board := push E (boards s ! current_board) m];
          copied = pushed @ [copy (pushed ! current_board)];
          q = queue s @ [(length pushed, current_depth + 1, Some m)]
      in case pop (copied ! current_board) of
           Inl e \<Rightarrow> Inl e
         | Inr b \<Rightarrow> expand E current_board current_depth ms
                      (s\<lparr>boards := copied[current_board := b], queue := q\<rparr>))"

text \<open>One round of \<^verbatim>\<open>while queue\<close>, for a non-empty queue.\<close>

definition step ::
  "('p, 'm) rules \<Rightarrow> nat \<Rightarrow> int \<Rightarrow> ('p, 'm) search_state \<Rightarrow> py_error + ('p, 'm) search_state" where
  "step E board depth s =
     (case queue s of
        [] \<Rightarrow> Inr s
      | (current_board, current_depth, leading_move) # rest \<Rightarrow>
          if current_depth \<ge> depth
          then Inr (visit E board current_board leading_move (s\<lparr>queue := rest\<rparr>))
          else expand E current_board current_depth
                 (legal_moves E (position (boards s ! current_board))) (s\<lparr>queue := rest\<rparr>))"

partial_function (option) bfs ::
  "('p, 'm) rules \<Rightarrow> nat \<Rightarrow> int \<Rightarrow> ('p, 'm) search_state
     \<Rightarrow> (py_error + ('p, 'm) search_state) option" where
  "bfs E board depth s =
     (if queue s = [] then Some (Inr s)
      else case step E board depth s of
             Inl e \<Rightarrow> Some (Inl e)
           | Inr s' \<Rightarrow> bfs E board depth s')"

declare bfs.simps [code]

definition search_depth :: "arg list \<Rightarrow> int" where
  "search_depth args = (case args of IntArg n # _ \<Rightarrow> n | _ \<Rightarrow> 2)"

definition initial_state :: "('p, 'm) rules \<Rightarrow> ('p, 'm) board list \<Rightarrow> nat \<Rightarrow> ('p, 'm) search_state" where
  "initial_state E st board =
     \<lparr>boards = st @ [copy (st ! board)],
      queue = [(length st, 0, None)],
      best_move = None,
      best_evaluation = (if turn E (position (st ! board)) then NegInf else PosInf)\<rparr>"

text \<open>
  \<^verbatim>\<open>Sciasa.search\<close>: the result is \<^verbatim>\<open>None\<close> if the loop does not end, an error if
  an exception leaves the call, and otherwise the \<^verbatim>\<open>PlayResult\<close> with the store as
  the call leaves it.
\<close>

definition Sciasa_search ::
  "('p, 'm) rules \<Rightarrow> ('p, 'm) board list \<Rightarrow> nat \<Rightarrow> arg list
     \<Rightarrow> (py_error + 'm play_result \<times> ('p, 'm) board list) option" where
  "Sciasa_search E st board args =
     (case bfs E board (search_depth args) (initial_state E st board) of
        None \<Rightarrow> None
      | Some (Inl e) \<Rightarrow> Some (Inl e)
      | Some (Inr s) \<Rightarrow> Some (Inr (PlayResult (best_move s) None, boards s)))"

section \<open>RandomMove, Alphabetical, FirstMove\<close>

text \<open>
  \<^verbatim>\<open>random.choice(seq)\<close> raises \<^verbatim>\<open>IndexError\<close> on an empty sequence and returns
  the element at the index the random source draws below \<^verbatim>\<open>len(seq)\<close> otherwise.
  The draw is the argument \<open>r\<close>, brought into range. These strategies only read the
  board, which is passed by value.
\<close>

definition choice :: "nat \<Rightarrow> 'a list \<Rightarrow> py_error + 'a" where
  "choice r seq = (if seq = [] then Inl IndexError else Inr (seq ! (r mod length seq)))"

text \<open>\<^verbatim>\<open>moves[0]\<close>: the head of the list, or \<^verbatim>\<open>IndexError\<close> when there is none.\<close>

definition item0 :: "'a list \<Rightarrow> py_error + 'a" where
  "item0 moves = (if moves = [] then Inl IndexError else Inr (hd moves))"

definition RandomMove_search ::
  "('p, 'm) rules \<Rightarrow> ('p, 'm) board \<Rightarrow> nat \<Rightarrow> py_error + 'm play_result" where
  "RandomMove_search E b r =
     (case choice r (legal_moves E (position b)) of
        Inl e \<Rightarrow> Inl e
      | Inr m \<Rightarrow> Inr (PlayResult (Some m) None))"

text \<open>\<^verbatim>\<open>list.sort(key=f)\<close> is a stable sort, as \<^const>\<open>sort_key\<close> is.\<close>

definition Alphabetical_search ::
  "('p, 'm) rules \<Rightarrow> ('p, 'm) board \<Rightarrow> py_error + 'm play_result" where
  "Alphabetical_search E b =
     (let moves = sort_key (san E (position b)) (legal_moves E (position b))
      in case item0 moves of
           Inl e \<Rightarrow> Inl e
         | Inr m \<Rightarrow> Inr (PlayResult (Some m) None))"

definition FirstMove_search ::
  "('p, 'm) rules \<Rightarrow> ('p, 'm) board \<Rightarrow> py_error + 'm play_result" where
  "FirstMove_search E b =
     (let moves = sort_key (uci E) (legal_moves E (position b))
      in case item0 moves of
           Inl e \<Rightarrow> Inl e
         | Inr m \<Rightarrow> Inr (PlayResult (Some m) None))"

section \<open>ComboEngine\<close>

text \<open>
  A field of the \<^verbatim>\<open>Limit\<close> is \<open>Some n\<close> when it holds a Python \<^verbatim>\<open>int\<close> and
  \<open>None\<close> when \<^verbatim>\<open>isinstance(field, int)\<close> fails.
\<close>

record limit =
  time :: "int option"
  white_clock :: "int option"
  black_clock :: "int option"
  white_inc :: "int option"
  black_inc :: "int option"

definition int_or_zero :: "int option \<Rightarrow> int" where
  "int_or_zero v = (case v of Some n \<Rightarrow> n | None \<Rightarrow> 0)"

definition clock :: "('p, 'm) rules \<Rightarrow> ('p, 'm) board \<Rightarrow> limit \<Rightarrow> int \<times> int" where
  "clock E b time_limit =
     (case time time_limit of
        Some t \<Rightarrow> (t, 0)
      | None \<Rightarrow>
          if turn E (position b) = WHITE
          then (int_or_zero (white_clock time_limit), int_or_zero (white_inc time_limit))
          else (int_or_zero (black_clock time_limit), int_or_zero (black_inc time_limit)))"

subsection \<open>Double precision\<close>

text \<open>
  \<^verbatim>\<open>my_time / 60 + my_inc > 10\<close> is computed on Python floats, which are IEEE 754
  doubles: 53 significant bits, exponents up to 1023, subnormals in steps of
  \<open>2 powi - 1074\<close>, rounding to nearest with ties to the even significand. A finite
  double is modelled by the rational it denotes. \<open>ilog2 q\<close> is the exponent of a
  positive \<open>q\<close>, the integer \<open>e\<close> with \<open>2 powi e \<le> q < 2 powi (e + 1)\<close>.
\<close>

definition ilog2 :: "rat \<Rightarrow> int" where
  "ilog2 q = (if 1 \<le> q then bitlen \<lfloor>q\<rfloor> - 1 else - bitlen (\<lceil>1 / q\<rceil> - 1))"

definition round_half_even :: "rat \<Rightarrow> int" where
  "round_half_even r =
     (let f = \<lfloor>r\<rfloor>; d = r - of_int f
      in if d < 1 / 2 then f else if 1 / 2 < d then f + 1 else if even f then f else f + 1)"

text \<open>The double nearest to \<open>q\<close>, were the exponent range unbounded above.\<close>

definition round_double :: "rat \<Rightarrow> rat" where
  "round_double q =
     (if q = 0 then 0
      else let u = 2 powi (max (ilog2 \<bar>q\<bar> - 52) (- 1074))
           in of_int (round_half_even (q / u)) * u)"

text \<open>
  Int true division and the conversion of an int operand to float both round the exact
  value correctly and raise \<^verbatim>\<open>OverflowError\<close> when the rounded value is beyond the
  largest double.
\<close>

definition to_double :: "rat \<Rightarrow> py_error + rat" where
  "to_double q =
     (let v = round_double q in if \<bar>v\<bar> < 2 ^ 1024 then Inr v else Inl OverflowError)"

text \<open>Float addition raises nothing: a sum beyond the largest double is an infinity.\<close>

datatype double = Finite rat | PlusInf | MinusInf

definition float_add :: "rat \<Rightarrow> rat \<Rightarrow> double" where
  "float_add x y =
     (let v = round_double (x + y)
      in if 2 ^ 1024 \<le> v then PlusInf else if v \<le> - (2 ^ 1024) then MinusInf else Finite v)"

text \<open>The comparison of a float with an int is exact.\<close>

fun float_gt_int :: "double \<Rightarrow> int \<Rightarrow> bool" where
  "float_gt_int (Finite v) n = (of_int n < v)"
| "float_gt_int PlusInf n = True"
| "float_gt_int MinusInf n = False"

text \<open>
  The test of line 195, \<^verbatim>\<open>my_time / 60 + my_inc > 10\<close>, on two ints: the division,
  then the conversion of \<^verbatim>\<open>my_inc\<close> for the addition, the addition, the comparison.
\<close>

definition generous :: "int \<Rightarrow> int \<Rightarrow> py_error + bool" where
  "generous my_time my_inc =
     (case to_double (of_int my_time / 60) of
        Inl e \<Rightarrow> Inl e
      | Inr x \<Rightarrow>
          (case to_double (of_int my_inc) of
             Inl e \<Rightarrow> Inl e
           | Inr y \<Rightarrow> Inr (float_gt_int (float_add x y) 10)))"

subsection \<open>The search\<close>

text \<open>
  \<^verbatim>\<open>root_moves\<close> is a reference: \<open>Some a\<close> for the list object at address \<open>a\<close> of
  the store of lists, \<open>None\<close> for a value that is not a list. \<^verbatim>\<open>possible_moves\<close>
  is then the same object, or a new list of the legal moves.
\<close>

definition possible_moves ::
  "('p, 'm) rules \<Rightarrow> 'm list list \<Rightarrow> ('p, 'm) board \<Rightarrow> nat option \<Rightarrow> 'm list list \<times> nat" where
  "possible_moves E heap b root_moves =
     (case root_moves of
        Some a \<Rightarrow> (heap, a)
      | None \<Rightarrow> (heap @ [legal_moves E (position b)], length heap))"

text \<open>
  The list \<^verbatim>\<open>possible_moves\<close> is bound before the test of the clock, so an
  \<^verbatim>\<open>OverflowError\<close> of the test leaves the call after the list of legal moves has
  been made and before anything is chosen or sorted.
\<close>

definition ComboEngine_search ::
  "('p, 'm) rules \<Rightarrow> 'm list list \<Rightarrow> ('p, 'm) board \<Rightarrow> limit \<Rightarrow> bool \<Rightarrow> bool \<Rightarrow> nat option \<Rightarrow> nat
     \<Rightarrow> (py_error + 'm play_result) \<times> 'm list list" where
  "ComboEngine_search E heap b time_limit pondering offered root_moves r =
     (let (my_time, my_inc) = clock E b time_limit;
          (heap1, pm) = possible_moves E heap b root_moves
      in case generous my_time my_inc of
           Inl e \<Rightarrow> (Inl e, heap1)
         | Inr g \<Rightarrow>
             if g then
               (case choice r (heap1 ! pm) of
                  Inl e \<Rightarrow> (Inl e, heap1)
                | Inr m \<Rightarrow> (Inr \<lparr>move = Some m, ponder = None, draw_offered = offered\<rparr>, heap1))
             else
               (let heap2 = heap1[pm := sort_key (uci E) (heap1 ! pm)]
                in case item0 (heap2 ! pm) of
                     Inl e \<Rightarrow> (Inl e, heap2)
                   | Inr m \<Rightarrow> (Inr \<lparr>move = Some m, ponder = None, draw_offered = offered\<rparr>, heap2)))"

section \<open>A small rules engine for concrete runs\<close>

text \<open>
  Positions are numbered. In position 0 white has two moves, each answered by one black
  move; in position 10 white's only move ends the game in position 11; every other
  position has no moves. All positions carry two white pawns and a black queen.
\<close>

definition toy_legal_moves :: "nat \<Rightarrow> string list" where
  "toy_legal_moves p =
     (if p = 0 then [''e2e4'', ''d2d4'']
      else if p = 1 \<or> p = 2 then [''e7e5'']
      else if p = 10 then [''h5f7'']
      else [])"

definition toy_make_move :: "nat \<Rightarrow> string \<Rightarrow> nat" where
  "toy_make_move p m =
     (if p = 0 then (if m = ''e2e4'' then 1 else 2)
      else if p = 1 then 3
      else if p = 2 then 4
      else Suc p)"

definition toy_pieces :: "nat \<Rightarrow> piece_type \<Rightarrow> bool \<Rightarrow> nat set" where
  "toy_pieces p t c =
     (if t = KING then (if c then {p mod 8} else {60})
      else if t = PAWN \<and> c then {8, 9}
      else if t = QUEEN \<and> \<not> c then {59}
      else {})"

definition toy :: "(nat, string) rules" where
  "toy = \<lparr>legal_moves = toy_legal_moves,
          make_move = toy_make_move,
          turn = (\<lambda>p. p \<in> {0, 3, 4, 10}),
          pieces = toy_pieces,
          san = (\<lambda>p m. drop 2 m),
          uci = (\<lambda>m. m)\<rparr>"

definition board_at :: "nat \<Rightarrow> (nat, string) board" where
  "board_at p = \<lparr>position = p, stack = []\<rparr>"

section \<open>Notions used in the statements\<close>

text \<open>
  The condition that a list reference points into the store, the result
  \<^verbatim>\<open>PlayResult(move, None, draw_offered=...)\<close>, and two shapes of \<^verbatim>\<open>Limit\<close>:
  a time per move, and white's clock with its increment.
\<close>

definition valid_ref :: "'a list \<Rightarrow> nat option \<Rightarrow> bool" where
  "valid_ref heap root_moves = (case root_moves of Some a \<Rightarrow> a < length heap | None \<Rightarrow> True)"

definition played :: "bool \<Rightarrow> 'm \<Rightarrow> 'm play_result" where
  "played offered m = \<lparr>move = Some m, ponder = None, draw_offered = offered\<rparr>"

definition tc :: "int \<Rightarrow> limit" where
  "tc t = \<lparr>time = Some t, white_clock = None, black_clock = None, white_inc = None, black_inc = None\<rparr>"


text \<open>
  For the search: a queue is valid when its addresses point into the store; the number
  of nodes of the move tree below a position, to a given depth, bounds the rounds the
  loop still has to make for a queue item.
\<close>

definition valid :: "('p, 'm) search_state \<Rightarrow> bool" where
  "valid s \<longleftrightarrow> (\<forall>(a, k, lm) \<in> set (queue s). a < length (boards s))"

fun nodes :: "('p, 'm) rules \<Rightarrow> nat \<Rightarrow> 'p \<Rightarrow> nat" where
  "nodes E 0 p = 1"
| "nodes E (Suc n) p = Suc (\<Sum>m \<leftarrow> legal_moves E p. nodes E n (make_move E p m))"

definition work :: "('p, 'm) rules \<Rightarrow> int \<Rightarrow> ('p, 'm) search_state \<Rightarrow> nat" where
  "work E depth s =
     (\<Sum>(a, k, lm) \<leftarrow> queue s. nodes E (nat (depth - k)) (position (boards s ! a)))"

text \<open>The queue items one expansion appends: addresses from \<open>n\<close> on, the next depth, each move.\<close>

definition children :: "nat \<Rightarrow> int \<Rightarrow> 'm list \<Rightarrow> (nat \<times> int \<times> 'm option) list" where
  "children n k ms = map (\<lambda>(i, m). (i, k + 1, Some m)) (zip [n ..< n + length ms] ms)"

text \<open>No node has been evaluated yet: \<^verbatim>\<open>best_evaluation\<close> is still the initial infinity.\<close>

definition unset :: "('p, 'm) rules \<Rightarrow> nat \<Rightarrow> ('p, 'm) search_state \<Rightarrow> bool" where
  "unset E board s \<longleftrightarrow>
     best_evaluation s = (if turn E (position (boards s ! board)) then NegInf else PosInf)"

section \<open>Theorems\<close>

lemma evaluate_board_expand:
  "evaluate_board E b =
     1 * material E (position b) PAWN + 3 * material E (position b) KNIGHT
     + 3 * material E (position b) BISHOP + 5 * material E (position b) ROOK
     + 9 * material E (position b) QUEEN"
  by (simp add: evaluate_board_def piece_values_def material_def)

text \<open>
  C7. For every board, \<^verbatim>\<open>evaluate_board\<close> is the sum over the table
  pawn 1, knight 3, bishop 3, rook 5, queen 9 of white's count minus black's count of
  that piece type, times the table value. The king is not in the table: two boards whose
  squares agree for every piece type but the king have the same score, whatever else
  differs between them. The score depends on the position alone.
\<close>

theorem evaluate_board_material:
  "evaluate_board E b = spec_evaluate E (position b)
   \<and> spec_evaluate E (position b) =
       1 * material E (position b) PAWN + 3 * material E (position b) KNIGHT
       + 3 * material E (position b) BISHOP + 5 * material E (position b) ROOK
       + 9 * material E (position b) QUEEN
   \<and> KING \<notin> fst ` set piece_values
   \<and> ((\<forall>t c. t \<noteq> KING \<longrightarrow> pieces E (position b) t c = pieces E (position b') t c)
        \<longrightarrow> evaluate_board E b = evaluate_board E b')"
  by (simp add: evaluate_board_expand spec_evaluate_def piece_values_def material_def)

theorem evaluate_board_material_witness:
  "pieces toy (position (board_at 0)) KING WHITE \<noteq> pieces toy (position (board_at 3)) KING WHITE
   \<and> evaluate_board toy (board_at 0) = evaluate_board toy (board_at 3)
   \<and> evaluate_board toy (board_at 0) = - 7"
proof -
  have same: "\<forall>t c. t \<noteq> KING \<longrightarrow>
       pieces toy (position (board_at 0)) t c = pieces toy (position (board_at 3)) t c"
    by (simp add: toy_def toy_pieces_def board_at_def)
  have king: "pieces toy (position (board_at 0)) KING WHITE
                \<noteq> pieces toy (position (board_at 3)) KING WHITE"
    by (simp add: toy_def toy_pieces_def board_at_def)
  from evaluate_board_material [of toy "board_at 0" "board_at 3"] same
  have "evaluate_board toy (board_at 0) = evaluate_board toy (board_at 3)"
    and "evaluate_board toy (board_at 0) =
           1 * material toy (position (board_at 0)) PAWN
           + 3 * material toy (position (board_at 0)) KNIGHT
           + 3 * material toy (position (board_at 0)) BISHOP
           + 5 * material toy (position (board_at 0)) ROOK
           + 9 * material toy (position (board_at 0)) QUEEN"
    by simp_all
  then show ?thesis
    using king by (simp add: toy_def toy_pieces_def board_at_def material_def)
qed

subsection \<open>Taking the first element, sorting, choosing\<close>

lemma item0_Nil: "item0 [] = Inl IndexError"
  by (simp add: item0_def)

lemma item0_sort_key:
  assumes "xs \<noteq> []"
  shows "\<exists>m. item0 (sort_key f xs) = Inr m \<and> m \<in> set xs \<and> (\<forall>x \<in> set xs. f m \<le> f x)"
proof -
  from assms have "sort_key f xs \<noteq> []"
    by (metis length_sort length_0_conv)
  then obtain m ms where ms: "sort_key f xs = m # ms"
    by (cases "sort_key f xs") auto
  have "sorted (map f (sort_key f xs))"
    by (rule sorted_sort_key)
  with ms have "\<forall>x \<in> set ms. f m \<le> f x"
    by simp
  moreover have "set xs = insert m (set ms)"
    using ms by (metis set_sort list.simps(15))
  ultimately show ?thesis
    using ms by (auto simp: item0_def)
qed

lemma choice_Nil: "choice r [] = Inl IndexError"
  by (simp add: choice_def)


subsection \<open>Rounding to double precision\<close>

text \<open>
  The exponent is the right one; rounding moves a value by at most half a unit in the
  last place and leaves integers below \<open>2^53\<close> alone; a value of magnitude
  \<open>2^1024\<close> or more does not fit. For clock values up to \<open>2^40\<close> the test in
  doubles therefore decides as the exact sum does, which is a multiple of 1/60.
\<close>

lemma ilog2_bounds:
  assumes "0 < q"
  shows "2 powi (ilog2 q) \<le> q \<and> q < 2 powi (ilog2 q + 1)"
proof (cases "1 \<le> q")
  case True
  let ?n = "\<lfloor>q\<rfloor>"
  have n: "0 < ?n" using True by simp
  have e: "ilog2 q = bitlen ?n - 1" using True by (simp add: ilog2_def)
  have b1: "1 \<le> bitlen ?n" using n by (simp add: bitlen_alt_def)
  from bitlen_bounds [OF n] have lo: "2 ^ nat (bitlen ?n - 1) \<le> ?n" and hi: "?n < 2 ^ nat (bitlen ?n)"
    by simp_all
  have "(2::rat) powi (bitlen ?n - 1) = of_int (2 ^ nat (bitlen ?n - 1))"
    using b1 by (simp add: power_int_nonneg_exp)
  also have "\<dots> \<le> of_int ?n" using lo by (simp only: of_int_le_iff)
  also have "\<dots> \<le> q" by simp
  finally have 1: "2 powi (ilog2 q) \<le> q" using e by simp
  have "?n + 1 \<le> 2 ^ nat (bitlen ?n)" using hi by simp
  then have "(of_int (?n + 1) :: rat) \<le> of_int (2 ^ nat (bitlen ?n))"
    by (simp only: of_int_le_iff)
  moreover have "q < of_int (?n + 1)" by linarith
  moreover have "(2::rat) powi (bitlen ?n) = of_int (2 ^ nat (bitlen ?n))"
    using b1 by (simp add: power_int_nonneg_exp)
  ultimately have 2: "q < 2 powi (ilog2 q + 1)" using e by simp
  from 1 2 show ?thesis ..
next
  case False
  let ?r = "1 / q"
  let ?m = "\<lceil>?r\<rceil> - 1"
  have r: "1 < ?r" using False assms by simp
  have m: "0 < ?m" using r by linarith
  have e: "ilog2 q = - bitlen ?m" using False by (simp add: ilog2_def)
  have b1: "1 \<le> bitlen ?m" using m by (simp add: bitlen_alt_def)
  from bitlen_bounds [OF m] have lo: "2 ^ nat (bitlen ?m - 1) \<le> ?m" and hi: "?m < 2 ^ nat (bitlen ?m)"
    by simp_all
  have mr: "of_int ?m < ?r" "?r \<le> of_int ?m + 1" by linarith+
  have "?m + 1 \<le> 2 ^ nat (bitlen ?m)" using hi by simp
  then have "(of_int (?m + 1) :: rat) \<le> of_int (2 ^ nat (bitlen ?m))"
    by (simp only: of_int_le_iff)
  moreover have "?r \<le> of_int (?m + 1)" using mr(2) by simp
  ultimately have "?r \<le> of_int (2 ^ nat (bitlen ?m))" by (rule order_trans [rotated])
  then have "?r \<le> 2 ^ nat (bitlen ?m)" by simp
  then have "1 / 2 ^ nat (bitlen ?m) \<le> q"
    using assms by (simp add: field_simps)
  moreover have "(2::rat) powi (- bitlen ?m) = 1 / 2 ^ nat (bitlen ?m)"
    using b1 by (simp add: power_int_minus_divide power_int_nonneg_exp)
  ultimately have 1: "2 powi (ilog2 q) \<le> q" using e by simp
  have "(of_int (2 ^ nat (bitlen ?m - 1)) :: rat) \<le> of_int ?m" using lo by (simp only: of_int_le_iff)
  then have "of_int (2 ^ nat (bitlen ?m - 1)) < ?r" using mr(1) by (rule le_less_trans)
  then have "2 ^ nat (bitlen ?m - 1) < ?r" by simp
  then have "q < 1 / 2 ^ nat (bitlen ?m - 1)"
    using assms by (simp add: field_simps)
  moreover have "(2::rat) powi (- bitlen ?m + 1) = 1 / 2 ^ nat (bitlen ?m - 1)"
  proof -
    have "- bitlen ?m + 1 = - (bitlen ?m - 1)" by simp
    then show ?thesis
      using b1 by (simp only: power_int_minus_divide) (simp add: power_int_nonneg_exp)
  qed
  ultimately have 2: "q < 2 powi (ilog2 q + 1)" using e by simp
  from 1 2 show ?thesis ..
qed

lemma powi_less_exp: "(2::rat) powi a < 2 powi b \<Longrightarrow> a < b"
  using power_int_increasing [of b a "2::rat"] by (cases "a < b") simp_all



lemma round_half_even_int: "round_half_even (of_int n) = n"
  by (simp add: round_half_even_def)

lemma round_half_even_error: "\<bar>of_int (round_half_even r) - r\<bar> \<le> 1 / 2"
proof -
  have "of_int \<lfloor>r\<rfloor> \<le> r" "r < of_int \<lfloor>r\<rfloor> + 1"
    by linarith+
  then show ?thesis
    by (auto simp: round_half_even_def Let_def)
qed


lemma ilog2_less:
  assumes "0 < q" and "q < 2 powi k"
  shows "ilog2 q < k"
proof -
  have "2 powi (ilog2 q) \<le> q" using ilog2_bounds [OF assms(1)] by simp
  then have "(2::rat) powi (ilog2 q) < 2 powi k" using assms(2) by linarith
  then show ?thesis by (rule powi_less_exp)
qed

lemma round_double_error:
  assumes "\<bar>q\<bar> < 2 powi k" and "- 1021 \<le> k"
  shows "\<bar>round_double q - q\<bar> \<le> 2 powi (k - 54)"
proof (cases "q = 0")
  case True
  then show ?thesis by (simp add: round_double_def)
next
  case False
  then have q: "0 < \<bar>q\<bar>" by simp
  define j where "j = max (ilog2 \<bar>q\<bar> - 52) (- 1074)"
  have j: "j \<le> ilog2 \<bar>q\<bar> - 52 \<or> j = - 1074"
    by (auto simp: j_def)
  have r: "round_double q = of_int (round_half_even (q / 2 powi j)) * 2 powi j"
    using False by (simp add: round_double_def Let_def j_def)
  have "ilog2 \<bar>q\<bar> < k" by (rule ilog2_less [OF q assms(1)])
  with j assms(2) have jk: "j \<le> k - 53" by auto
  let ?u = "(2::rat) powi j"
  have u: "0 < ?u" by simp
  have "round_double q - q = (of_int (round_half_even (q / ?u)) - q / ?u) * ?u"
    using r u by (simp add: field_simps)
  then have "\<bar>round_double q - q\<bar> = \<bar>of_int (round_half_even (q / ?u)) - q / ?u\<bar> * ?u"
    using u by (simp add: abs_mult)
  also have "\<dots> \<le> 1 / 2 * ?u"
    using round_half_even_error [of "q / ?u"] u by (intro mult_right_mono) simp_all
  also have "\<dots> \<le> 1 / 2 * 2 powi (k - 53)"
    using jk by (simp add: power_int_increasing)
  also have "\<dots> = 2 powi (k - 54)"
  proof -
    have "(2::rat) powi (k - 53) = 2 powi (k - 54 + 1)" by simp
    also have "\<dots> = 2 powi (k - 54) * 2" by (rule power_int_add_1) simp
    finally show ?thesis by simp
  qed
  finally show ?thesis .
qed

lemma round_double_int:
  assumes "\<bar>n\<bar> < 2 ^ 53"
  shows "round_double (of_int n) = of_int n"
proof (cases "n = 0")
  case True
  then show ?thesis by (simp add: round_double_def)
next
  case False
  let ?q = "of_int n :: rat"
  have q0: "?q \<noteq> 0" using False by simp
  define j where "j = max (ilog2 \<bar>?q\<bar> - 52) (- 1074)"
  have j: "- 1074 \<le> j" "j \<le> ilog2 \<bar>?q\<bar> - 52 \<or> j = - 1074"
    by (auto simp: j_def)
  have r: "round_double ?q = of_int (round_half_even (?q / 2 powi j)) * 2 powi j"
    using q0 by (simp add: round_double_def Let_def j_def)
  have "\<bar>?q\<bar> = of_int \<bar>n\<bar>" by simp
  also have "\<dots> < of_int (2 ^ 53)" using assms by (simp only: of_int_less_iff)
  finally have "\<bar>?q\<bar> < 2 powi 53" by simp
  moreover have "0 < \<bar>?q\<bar>" using False by simp
  ultimately have "ilog2 \<bar>?q\<bar> < 53" by (intro ilog2_less)
  with j have j0: "j \<le> 0" by auto
  have p: "(2::rat) powi j = 1 / 2 ^ nat (- j)"
  proof -
    have "j = - (- j)" by simp
    then have "(2::rat) powi j = 1 / 2 powi (- j)"
      by (metis power_int_minus_divide)
    then show ?thesis using j0 by (simp add: power_int_nonneg_exp)
  qed
  have "?q / 2 powi j = of_int (n * 2 ^ nat (- j))"
    by (simp add: p)
  then have "round_half_even (?q / 2 powi j) = n * 2 ^ nat (- j)"
    by (simp only: round_half_even_int)
  then show ?thesis
    using r by (simp add: p)
qed




lemma to_double_int:
  assumes "\<bar>n\<bar> < 2 ^ 53"
  shows "to_double (of_int n) = Inr (of_int n)"
proof -
  have "(of_int \<bar>n\<bar> :: rat) < of_int (2 ^ 53)"
    using assms by (simp only: of_int_less_iff)
  then have "\<bar>of_int n :: rat\<bar> < 2 ^ 1024" by simp
  then show ?thesis
    by (simp add: to_double_def round_double_int [OF assms])
qed

lemma generous_exact:
  assumes t: "\<bar>my_time\<bar> \<le> 2 ^ 40" and i: "\<bar>my_inc\<bar> \<le> 2 ^ 40"
  shows "generous my_time my_inc = Inr (10 < (of_int my_time :: rat) / 60 + of_int my_inc)"
proof -
  let ?q = "of_int my_time / 60 :: rat"
  let ?i = "of_int my_inc :: rat"
  define x where "x = round_double ?q"
  define s where "s = round_double (x + ?i)"
  have big: "(4398046511104::rat) \<le> 2 ^ 1024" by simp
  have tb: "\<bar>of_int my_time :: rat\<bar> \<le> 1099511627776"
  proof -
    have "(of_int \<bar>my_time\<bar> :: rat) \<le> of_int (2 ^ 40)" using t by (simp only: of_int_le_iff)
    then show ?thesis by simp
  qed
  have ib: "\<bar>?i\<bar> \<le> 1099511627776"
  proof -
    have "(of_int \<bar>my_inc\<bar> :: rat) \<le> of_int (2 ^ 40)" using i by (simp only: of_int_le_iff)
    then show ?thesis by simp
  qed
  have qb: "\<bar>?q\<bar> < 34359738368" using tb by simp
  then have "\<bar>?q\<bar> < 2 powi 35" by simp
  from round_double_error [OF this] have "\<bar>x - ?q\<bar> \<le> 2 powi (- 19)"
    by (simp add: x_def)
  then have xe: "\<bar>x - ?q\<bar> \<le> 1 / 524288" by simp
  have xb: "\<bar>x\<bar> < 68719476736" using xe qb by linarith
  have zb: "\<bar>x + ?i\<bar> < 2199023255552" using xb ib by linarith
  then have "\<bar>x + ?i\<bar> < 2 powi 41" by simp
  from round_double_error [OF this] have "\<bar>s - (x + ?i)\<bar> \<le> 2 powi (- 13)"
    by (simp add: s_def)
  then have se: "\<bar>s - (x + ?i)\<bar> \<le> 1 / 8192" by simp
  have sb: "\<bar>s\<bar> < 4398046511104" using se zb by linarith
  have "\<bar>x\<bar> < 2 ^ 1024" using xb big by linarith
  then have dx: "to_double ?q = Inr x"
    by (simp add: to_double_def x_def [symmetric])
  have "\<bar>my_inc\<bar> < 2 ^ 53" using i by simp
  then have dy: "to_double ?i = Inr ?i" by (rule to_double_int)
  have "\<not> 2 ^ 1024 \<le> s" "\<not> s \<le> - (2 ^ 1024)" using sb big by linarith+
  then have fa: "float_add x ?i = Finite s"
    by (simp add: float_add_def s_def [symmetric])
  have g: "generous my_time my_inc = Inr (10 < s)"
    by (simp add: generous_def dx dy fa)
  define d where "d = my_time + 60 * my_inc"
  have sum: "?q + ?i = of_int d / 60" by (simp add: d_def)
  have "(10 < s) = (10 < ?q + ?i)"
  proof -
    consider "601 \<le> d" | "d \<le> 599" | "d = 600" by linarith
    then show ?thesis
    proof cases
      case 1
      then have "(of_int 601 :: rat) \<le> of_int d" by (simp only: of_int_le_iff)
      then have le: "601 / 60 \<le> ?q + ?i" using sum by simp
      then have "10 < s" using xe se by linarith
      moreover have "10 < ?q + ?i" using le by linarith
      ultimately show ?thesis by simp
    next
      case 2
      then have "(of_int d :: rat) \<le> of_int 599" by (simp only: of_int_le_iff)
      then have le: "?q + ?i \<le> 599 / 60" using sum by simp
      then have "\<not> 10 < s" using xe se by linarith
      moreover have "\<not> 10 < ?q + ?i" using le by linarith
      ultimately show ?thesis by simp
    next
      case 3
      then have mt: "my_time = 60 * (10 - my_inc)" by (simp add: d_def)
      then have q: "?q = of_int (10 - my_inc)" by simp
      have "\<bar>10 - my_inc\<bar> < 2 ^ 53" using i by simp
      then have "x = of_int (10 - my_inc)"
        unfolding x_def q by (rule round_double_int)
      then have "x + ?i = of_int 10" by simp
      then have "s = 10"
        unfolding s_def using round_double_int [of 10] by simp
      moreover have "?q + ?i = 10" unfolding q by simp
      ultimately show ?thesis by simp
    qed
  qed
  then show ?thesis
    using g by simp
qed



lemma generous_300: "generous 300 0 = Inr False"
  using generous_exact [of 300 0] by simp






subsection \<open>ComboEngine as a function of its candidate list\<close>

lemma choice_in: "xs \<noteq> [] \<Longrightarrow> \<exists>m \<in> set xs. choice r xs = Inr m"
  by (simp add: choice_def)

lemma clock_tc: "clock E b (tc t) = (t, 0)"
  by (simp add: clock_def tc_def)

lemma ComboEngine_result:
  assumes "clock E b time_limit = (my_time, my_inc)" and "valid_ref heap root_moves"
    and "cands = (case root_moves of Some a \<Rightarrow> heap ! a | None \<Rightarrow> legal_moves E (position b))"
  shows "fst (ComboEngine_search E heap b time_limit pondering offered root_moves r) =
           (case generous my_time my_inc of
              Inl e \<Rightarrow> Inl e
            | Inr g \<Rightarrow>
                map_sum id (played offered)
                  (if g then choice r cands else item0 (sort_key (uci E) cands)))"
  using assms
  by (cases root_moves)
     (simp_all add: ComboEngine_search_def possible_moves_def played_def
        valid_ref_def Let_def split: sum.splits)

lemma ComboEngine_heap:
  assumes "clock E b time_limit = (my_time, my_inc)" and "a < length heap"
  shows "snd (ComboEngine_search E heap b time_limit pondering offered (Some a) r) =
           (if generous my_time my_inc = Inr False
            then heap[a := sort_key (uci E) (heap ! a)] else heap)"
  using assms
  by (simp add: ComboEngine_search_def possible_moves_def Let_def split: sum.splits)

lemma ComboEngine_no_candidates:
  assumes "clock E b time_limit = (my_time, my_inc)" and "valid_ref heap root_moves"
    and "[] = (case root_moves of Some a \<Rightarrow> heap ! a | None \<Rightarrow> legal_moves E (position b))"
  shows "fst (ComboEngine_search E heap b time_limit pondering offered root_moves r) =
           (case generous my_time my_inc of Inl e \<Rightarrow> Inl e | Inr g \<Rightarrow> Inl IndexError)"
  using ComboEngine_result [OF assms, of pondering offered r]
  by (simp add: choice_Nil item0_Nil split: sum.splits)

lemma ComboEngine_some_candidate:
  assumes "clock E b time_limit = (my_time, my_inc)" and "valid_ref heap root_moves"
    and "cands = (case root_moves of Some a \<Rightarrow> heap ! a | None \<Rightarrow> legal_moves E (position b))"
    and "cands \<noteq> []" and "generous my_time my_inc = Inr g"
  shows "\<exists>m \<in> set cands.
           fst (ComboEngine_search E heap b time_limit pondering offered root_moves r)
             = Inr (played offered m)"
proof (cases g)
  case True
  then show ?thesis
    using ComboEngine_result [OF assms(1,2,3), of pondering offered r] assms(5)
      choice_in [OF assms(4), of r]
    by auto
next
  case False
  then show ?thesis
    using ComboEngine_result [OF assms(1,2,3), of pondering offered r] assms(5)
      item0_sort_key [OF assms(4), of "uci E"]
    by auto
qed




text \<open>
  C5. The result of \<^verbatim>\<open>ComboEngine.search\<close> is computed from one candidate list: the
  list \<^verbatim>\<open>root_moves\<close> when that is a list, and the list of the legal moves of the root
  when it is not. Once the clock test has been computed, the random branch chooses from
  that list and the other branch takes the head of that list sorted, so a non-empty list
  gives one of its moves. An empty candidate list, in particular an empty list given as
  \<^verbatim>\<open>root_moves\<close>, makes the call fail with an exception in every case and return
  nothing: \<^verbatim>\<open>IndexError\<close> in either branch, or the \<^verbatim>\<open>OverflowError\<close> of the clock
  test.
\<close>

theorem ComboEngine_candidates:
  assumes "valid_ref heap root_moves"
    and "clock E b time_limit = (my_time, my_inc)"
    and "cands = (case root_moves of Some a \<Rightarrow> heap ! a | None \<Rightarrow> legal_moves E (position b))"
  shows "fst (ComboEngine_search E heap b time_limit pondering offered root_moves r) =
           (case generous my_time my_inc of
              Inl e \<Rightarrow> Inl e
            | Inr g \<Rightarrow>
                map_sum id (played offered)
                  (if g then choice r cands else item0 (sort_key (uci E) cands)))
    \<and> (cands = [] \<longrightarrow>
          fst (ComboEngine_search E heap b time_limit pondering offered root_moves r) =
            (case generous my_time my_inc of Inl e \<Rightarrow> Inl e | Inr g \<Rightarrow> Inl IndexError)
          \<and> (\<exists>e. fst (ComboEngine_search E heap b time_limit pondering offered root_moves r)
                   = Inl e))
    \<and> (cands \<noteq> [] \<longrightarrow>
          (\<forall>g. generous my_time my_inc = Inr g \<longrightarrow>
             (\<exists>m \<in> set cands.
                fst (ComboEngine_search E heap b time_limit pondering offered root_moves r)
                  = Inr (played offered m))))"
proof -
  have 1: "fst (ComboEngine_search E heap b time_limit pondering offered root_moves r) =
           (case generous my_time my_inc of
              Inl e \<Rightarrow> Inl e
            | Inr g \<Rightarrow>
                map_sum id (played offered)
                  (if g then choice r cands else item0 (sort_key (uci E) cands)))"
    by (rule ComboEngine_result [OF assms(2,1,3)])
  have 2: "fst (ComboEngine_search E heap b time_limit pondering offered root_moves r) =
            (case generous my_time my_inc of Inl e \<Rightarrow> Inl e | Inr g \<Rightarrow> Inl IndexError)"
    if "cands = []"
    using ComboEngine_no_candidates [OF assms(2,1), of pondering offered r] assms(3) that by simp
  have 3: "\<exists>e. fst (ComboEngine_search E heap b time_limit pondering offered root_moves r) = Inl e"
    if "cands = []"
    using 2 [OF that] by (cases "generous my_time my_inc") simp_all
  have 4: "\<exists>m \<in> set cands.
                fst (ComboEngine_search E heap b time_limit pondering offered root_moves r)
                  = Inr (played offered m)"
    if "cands \<noteq> []" "generous my_time my_inc = Inr g" for g
    by (rule ComboEngine_some_candidate [OF assms(2,1,3) that])
  show ?thesis
    using 1 2 3 4 by blast
qed

theorem ComboEngine_candidates_witness:
  "valid_ref [[]] (Some 0)
   \<and> clock toy (board_at 0) (tc 300) = (300, 0)
   \<and> generous 300 0 = Inr False
   \<and> fst (ComboEngine_search toy [[]] (board_at 0) (tc 300) False False (Some 0) 0) = Inl IndexError
   \<and> fst (ComboEngine_search toy [[]] (board_at 0) (tc 300) False False None 0)
       = Inr (played False ''d2d4'')"
proof -
  have v: "valid_ref [[]] (Some (0::nat))" "valid_ref [[]] None"
    by (simp_all add: valid_ref_def)
  have c: "[] = (case Some 0 of Some a \<Rightarrow> [[]] ! a
                 | None \<Rightarrow> legal_moves toy (position (board_at 0)))"
    by simp
  have d: "[''e2e4'', ''d2d4''] = (case None of Some a \<Rightarrow> [[]] ! a
                 | None \<Rightarrow> legal_moves toy (position (board_at 0)))"
    by (simp add: toy_def toy_legal_moves_def board_at_def)
  from ComboEngine_candidates [OF v(1) clock_tc [where t = 300] c,
      where pondering = False and offered = False and r = 0]
  have 1: "fst (ComboEngine_search toy [[]] (board_at 0) (tc 300) False False (Some 0) 0)
             = Inl IndexError"
    by (simp add: generous_300 item0_Nil)
  from ComboEngine_candidates [OF v(2) clock_tc [where t = 300] d,
      where pondering = False and offered = False and r = 0]
  have 2: "fst (ComboEngine_search toy [[]] (board_at 0) (tc 300) False False None 0)
             = Inr (played False ''d2d4'')"
    by (simp add: generous_300 item0_def toy_def)
  show ?thesis
    using v 1 2 by (simp add: clock_tc generous_300)
qed

text \<open>
  C6. For every position, clock and random draw, and every non-empty list given as
  \<^verbatim>\<open>root_moves\<close>: whenever \<^verbatim>\<open>ComboEngine.search\<close> takes a branch, the random one
  or the sorted one, it returns a move of that list; whatever it returns is a move of
  that list; and for clock values up to \<open>2^40\<close> it does return one.
\<close>

theorem ComboEngine_within_root_moves:
  assumes "a < length heap" and "heap ! a \<noteq> []"
    and "clock E b time_limit = (my_time, my_inc)"
  shows "(\<forall>g. generous my_time my_inc = Inr g \<longrightarrow>
            (\<exists>m \<in> set (heap ! a).
               fst (ComboEngine_search E heap b time_limit pondering offered (Some a) r)
                 = Inr (played offered m)))
    \<and> (\<forall>res. fst (ComboEngine_search E heap b time_limit pondering offered (Some a) r) = Inr res
          \<longrightarrow> move res \<in> Some ` set (heap ! a))
    \<and> (\<bar>my_time\<bar> \<le> 2 ^ 40 \<and> \<bar>my_inc\<bar> \<le> 2 ^ 40 \<longrightarrow>
          (\<exists>m \<in> set (heap ! a).
             fst (ComboEngine_search E heap b time_limit pondering offered (Some a) r)
               = Inr (played offered m)))"
proof -
  have v: "valid_ref heap (Some a)"
    using assms(1) by (simp add: valid_ref_def)
  have c: "heap ! a = (case Some a of Some a \<Rightarrow> heap ! a | None \<Rightarrow> legal_moves E (position b))"
    by simp
  have 1: "\<exists>m \<in> set (heap ! a).
               fst (ComboEngine_search E heap b time_limit pondering offered (Some a) r)
                 = Inr (played offered m)"
    if "generous my_time my_inc = Inr g" for g
    by (rule ComboEngine_some_candidate [OF assms(3) v c assms(2) that])
  have 2: "move res \<in> Some ` set (heap ! a)"
    if "fst (ComboEngine_search E heap b time_limit pondering offered (Some a) r) = Inr res"
    for res
  proof (cases "generous my_time my_inc")
    case (Inl e)
    then show ?thesis
      using ComboEngine_result [OF assms(3) v c, of pondering offered r] that by simp
  next
    case (Inr g)
    from 1 [OF this] that show ?thesis
      by (auto simp: played_def)
  qed
  have 3: "\<exists>m \<in> set (heap ! a).
               fst (ComboEngine_search E heap b time_limit pondering offered (Some a) r)
                 = Inr (played offered m)"
    if "\<bar>my_time\<bar> \<le> 2 ^ 40" "\<bar>my_inc\<bar> \<le> 2 ^ 40"
    using 1 [OF generous_exact [OF that]] .
  show ?thesis
    using 1 2 3 by blast
qed

theorem ComboEngine_within_root_moves_witness:
  "0 < length [[''g1f3'', ''b1c3'']] \<and> [[''g1f3'', ''b1c3'']] ! 0 \<noteq> []
   \<and> clock toy (board_at 0) (tc 300) = (300, 0) \<and> generous 300 0 = Inr False
   \<and> (\<exists>m \<in> set ([[''g1f3'', ''b1c3'']] ! 0).
         fst (ComboEngine_search toy [[''g1f3'', ''b1c3'']] (board_at 0) (tc 300) False False (Some 0) 5)
           = Inr (played False m))"
proof -
  have 1: "0 < length [[''g1f3'', ''b1c3'']]" and 2: "[[''g1f3'', ''b1c3'']] ! 0 \<noteq> []"
    by simp_all
  from ComboEngine_within_root_moves [OF 1 2 clock_tc [where t = 300],
      where pondering = False and offered = False and r = 5]
    generous_300
  have "\<exists>m \<in> set ([[''g1f3'', ''b1c3'']] ! 0).
         fst (ComboEngine_search toy [[''g1f3'', ''b1c3'']] (board_at 0) (tc 300) False False (Some 0) 5)
           = Inr (played False m)"
    by blast
  then show ?thesis
    using 1 2 by (simp add: clock_tc generous_300)
qed

text \<open>
  C10. When \<^verbatim>\<open>root_moves\<close> is a list and the call takes the sorted branch, that is
  when \<^verbatim>\<open>my_time / 60 + my_inc > 10\<close> is computed and false, the call leaves the
  caller's list object sorted by UCI string: \<^verbatim>\<open>possible_moves\<close> is the same object,
  and \<^verbatim>\<open>sort\<close> works in place. No other list of the store changes. For clock values up
  to \<open>2^40\<close> the branch is taken exactly when the exact sum is at most 10.
\<close>

theorem ComboEngine_sorts_root_moves:
  assumes "a < length heap"
    and "clock E b time_limit = (my_time, my_inc)"
    and "generous my_time my_inc = Inr False
         \<or> \<bar>my_time\<bar> \<le> 2 ^ 40 \<and> \<bar>my_inc\<bar> \<le> 2 ^ 40
            \<and> (of_int my_time :: rat) / 60 + of_int my_inc \<le> 10"
  shows "snd (ComboEngine_search E heap b time_limit pondering offered (Some a) r)
           = heap[a := sort_key (uci E) (heap ! a)]
         \<and> snd (ComboEngine_search E heap b time_limit pondering offered (Some a) r) ! a
           = sort_key (uci E) (heap ! a)"
proof -
  have "generous my_time my_inc = Inr False"
    using assms(3) generous_exact [of my_time my_inc] by auto
  with ComboEngine_heap [OF assms(2,1), of pondering offered r] show ?thesis
    using assms(1) by simp
qed

theorem ComboEngine_sorts_root_moves_witness:
  "0 < length [[''g1f3'', ''b1c3'']] \<and> clock toy (board_at 0) (tc 300) = (300, 0)
   \<and> generous 300 0 = Inr False
   \<and> snd (ComboEngine_search toy [[''g1f3'', ''b1c3'']] (board_at 0) (tc 300) False False (Some 0) 5)
       = [[''b1c3'', ''g1f3'']]"
proof -
  have 1: "0 < length [[''g1f3'', ''b1c3'']]"
    by simp
  have 2: "generous 300 0 = Inr False
           \<or> \<bar>300 :: int\<bar> \<le> 2 ^ 40 \<and> \<bar>0 :: int\<bar> \<le> 2 ^ 40
              \<and> (of_int 300 :: rat) / 60 + of_int 0 \<le> 10"
    by simp
  show ?thesis
    using 1 ComboEngine_sorts_root_moves [OF 1 clock_tc [where t = 300] 2, where E = toy
        and b = "board_at 0" and pondering = False and offered = False and r = 5]
    by (simp add: clock_tc generous_300 toy_def)
qed

subsection \<open>The strategies that look at the root only\<close>

lemma simple_strategies_legal:
  assumes "legal_moves E (position b) \<noteq> []"
  shows "\<exists>m \<in> set (legal_moves E (position b)). RandomMove_search E b r = Inr (PlayResult (Some m) None)"
    and "\<exists>m \<in> set (legal_moves E (position b)). Alphabetical_search E b = Inr (PlayResult (Some m) None)"
    and "\<exists>m \<in> set (legal_moves E (position b)). FirstMove_search E b = Inr (PlayResult (Some m) None)"
    and "clock E b time_limit = (my_time, my_inc) \<Longrightarrow> generous my_time my_inc = Inr g \<Longrightarrow>
         \<exists>m \<in> set (legal_moves E (position b)).
           fst (ComboEngine_search E heap b time_limit pondering offered None r) = Inr (played offered m)"
proof -
  show "\<exists>m \<in> set (legal_moves E (position b)). RandomMove_search E b r = Inr (PlayResult (Some m) None)"
    using choice_in [OF assms, of r] by (auto simp: RandomMove_search_def)
  show "\<exists>m \<in> set (legal_moves E (position b)). Alphabetical_search E b = Inr (PlayResult (Some m) None)"
    using item0_sort_key [OF assms, of "san E (position b)"]
    by (auto simp: Alphabetical_search_def)
  show "\<exists>m \<in> set (legal_moves E (position b)). FirstMove_search E b = Inr (PlayResult (Some m) None)"
    using item0_sort_key [OF assms, of "uci E"]
    by (auto simp: FirstMove_search_def)
  show "\<exists>m \<in> set (legal_moves E (position b)).
           fst (ComboEngine_search E heap b time_limit pondering offered None r) = Inr (played offered m)"
    if "clock E b time_limit = (my_time, my_inc)" "generous my_time my_inc = Inr g"
  proof (rule ComboEngine_some_candidate [OF that(1) _ _ assms that(2)])
    show "valid_ref heap None" by (simp add: valid_ref_def)
    show "legal_moves E (position b) =
            (case None of Some a \<Rightarrow> heap ! a | None \<Rightarrow> legal_moves E (position b))"
      by simp
  qed
qed


subsection \<open>The search loop\<close>

lemma copy_id: "copy b = b"
  by (simp add: copy_def)

lemma pop_push: "pop (push E b m) = Inr b"
  by (simp add: pop_def push_def)

lemma position_push: "position (push E b m) = make_move E (position b) m"
  by (simp add: push_def)

lemma children_Nil: "children n k [] = []"
  by (simp add: children_def)

lemma children_Cons: "children n k (m # ms) = (n, k + 1, Some m) # children (Suc n) k ms"
proof -
  have "[n ..< n + length (m # ms)] = n # [Suc n ..< Suc n + length ms]"
    by (simp add: upt_conv_Cons del: upt_Suc)
  then show ?thesis
    by (simp add: children_def del: upt_Suc)
qed

lemma expand_valid:
  "a < length (boards s) \<Longrightarrow>
   expand E a k ms s =
     Inr (s\<lparr>boards := boards s @ map (push E (boards s ! a)) ms,
            queue := queue s @ children (length (boards s)) k ms\<rparr>)"
proof (induction ms arbitrary: s)
  case Nil
  then show ?case by (simp add: children_Nil)
next
  case (Cons m ms)
  let ?b = "boards s ! a"
  let ?s' = "s\<lparr>boards := boards s @ [push E ?b m],
               queue := queue s @ [(length (boards s), k + 1, Some m)]\<rparr>"
  have a': "a < length (boards ?s')"
    using Cons.prems by simp
  have b': "boards ?s' ! a = ?b"
    using Cons.prems by (simp add: nth_append)
  have "expand E a k (m # ms) s = expand E a k ms ?s'"
    using Cons.prems
    by (simp add: Let_def copy_id pop_push nth_append list_update_append)
  also have "\<dots> = Inr (?s'\<lparr>boards := boards ?s' @ map (push E (boards ?s' ! a)) ms,
            queue := queue ?s' @ children (length (boards ?s')) k ms\<rparr>)"
    by (rule Cons.IH [OF a'])
  finally show ?case
    using b' by (simp add: children_Cons)
qed


lemma children_elem:
  assumes "(a, k', lm) \<in> set (children n k ms)"
  shows "\<exists>i < length ms. a = n + i \<and> k' = k + 1 \<and> lm = Some (ms ! i)"
proof -
  from assms obtain j m where jm: "(j, m) \<in> set (zip [n ..< n + length ms] ms)"
      and eq: "(a, k', lm) = (j, k + 1, Some m)"
    by (auto simp: children_def)
  from jm obtain i where "[n ..< n + length ms] ! i = j" "ms ! i = m" "i < length ms"
    by (auto simp: in_set_zip)
  with eq show ?thesis
    by auto
qed

lemma visit_fields:
  "boards (visit E board a lm s) = boards s"
  "queue (visit E board a lm s) = queue s"
  "best_move s = None \<Longrightarrow> best_move (visit E board a None s) = None"
  by (simp_all add: visit_def Let_def)

lemma step_visit:
  assumes "queue s = (a, k, lm) # rest" and "depth \<le> k"
  shows "step E board depth s = Inr (visit E board a lm (s\<lparr>queue := rest\<rparr>))"
  using assms by (simp add: step_def)

lemma step_expand:
  assumes "queue s = (a, k, lm) # rest" and "k < depth" and "a < length (boards s)"
  shows "step E board depth s =
           Inr (s\<lparr>boards := boards s @ map (push E (boards s ! a))
                                         (legal_moves E (position (boards s ! a))),
                  queue := rest @ children (length (boards s)) k
                                    (legal_moves E (position (boards s ! a)))\<rparr>)"
  using assms by (simp add: step_def expand_valid)

lemma nodes_pos: "0 < nodes E n p"
  by (cases n) simp_all

lemma sum_old:
  assumes "\<forall>(a, k, lm) \<in> set q. a < length bs"
  shows "(\<Sum>(a, k, lm) \<leftarrow> q. f k (position ((bs @ ext) ! a)))
           = (\<Sum>(a, k, lm) \<leftarrow> q. f k (position (bs ! a)))"
proof -
  have "map (\<lambda>(a, k, lm). f k (position ((bs @ ext) ! a))) q
          = map (\<lambda>(a, k, lm). f k (position (bs ! a))) q"
    using assms by (auto simp: nth_append)
  then show ?thesis
    by (simp only:)
qed

lemma sum_children:
  "(\<Sum>(a, k', lm) \<leftarrow> children (length bs) k ms.
        f k' (position ((bs @ map (push E b) ms) ! a)))
     = (\<Sum>m \<leftarrow> ms. f (k + 1) (make_move E (position b) m))"
proof (induction ms arbitrary: bs)
  case Nil
  then show ?case by (simp add: children_Nil)
next
  case (Cons m ms)
  have "bs @ map (push E b) (m # ms) = (bs @ [push E b m]) @ map (push E b) ms"
    by simp
  moreover have "Suc (length bs) = length (bs @ [push E b m])"
    by simp
  ultimately have
    "(\<Sum>(a, k', lm) \<leftarrow> children (Suc (length bs)) k ms.
        f k' (position ((bs @ map (push E b) (m # ms)) ! a)))
     = (\<Sum>m \<leftarrow> ms. f (k + 1) (make_move E (position b) m))"
    using Cons.IH [of "bs @ [push E b m]"] by metis
  then show ?case
    by (simp add: children_Cons position_push nth_append)
qed

lemma work_visit:
  assumes "queue s = (a, k, lm) # rest"
  shows "work E depth (visit E board a lm (s\<lparr>queue := rest\<rparr>)) < work E depth s"
  using assms nodes_pos [of E "nat (depth - k)" "position (boards s ! a)"]
  by (simp add: work_def visit_fields)

lemma work_expand:
  assumes q: "queue s = (a, k, lm) # rest" and k: "k < depth" and v: "valid s"
  shows "work E depth (s\<lparr>boards := boards s @ map (push E (boards s ! a))
                                         (legal_moves E (position (boards s ! a))),
                  queue := rest @ children (length (boards s)) k
                                    (legal_moves E (position (boards s ! a)))\<rparr>)
           < work E depth s"
proof -
  let ?b = "boards s ! a"
  let ?ms = "legal_moves E (position ?b)"
  let ?f = "\<lambda>k. nodes E (nat (depth - k))"
  have old: "\<forall>(a, k, lm) \<in> set rest. a < length (boards s)"
    using v q by (auto simp: valid_def)
  have "nat (depth - k) = Suc (nat (depth - (k + 1)))"
    using k by simp
  then have top: "?f k (position ?b) = Suc (\<Sum>m \<leftarrow> ?ms. ?f (k + 1) (make_move E (position ?b) m))"
    by simp
  show ?thesis
    unfolding work_def
    using sum_old [OF old, where f = ?f and ext = "map (push E ?b) ?ms"]
      sum_children [where bs = "boards s" and k = k and ms = ?ms and f = ?f and E = E and b = ?b]
      top q
    by simp
qed

lemma valid_expand:
  assumes q: "queue s = (a, k, lm) # rest" and v: "valid s"
  shows "valid (s\<lparr>boards := boards s @ map (push E b) ms,
                  queue := rest @ children (length (boards s)) k ms\<rparr>)"
proof -
  have "a' < length (boards s) + length ms"
    if "(a', k', lm') \<in> set rest \<or> (a', k', lm') \<in> set (children (length (boards s)) k ms)"
    for a' k' lm'
    using that
  proof
    assume "(a', k', lm') \<in> set rest"
    then show ?thesis using v q by (auto simp: valid_def)
  next
    assume "(a', k', lm') \<in> set (children (length (boards s)) k ms)"
    from children_elem [OF this] show ?thesis by auto
  qed
  then show ?thesis
    by (auto simp: valid_def)
qed

lemma bfs_terminates:
  assumes "valid s"
  shows "\<exists>s'. bfs E board depth s = Some (Inr s') \<and> queue s' = []
              \<and> (\<exists>ext. boards s' = boards s @ ext)"
  using assms
proof (induction "work E depth s" arbitrary: s rule: less_induct)
  case less
  show ?case
  proof (cases "queue s")
    case Nil
    then show ?thesis
      by (subst bfs.simps) simp
  next
    case (Cons item rest)
    obtain a k lm where item: "item = (a, k, lm)"
      by (cases item)
    have q: "queue s = (a, k, lm) # rest"
      using Cons item by simp
    have a: "a < length (boards s)"
      using less.prems q by (auto simp: valid_def)
    show ?thesis
    proof (cases "depth \<le> k")
      case True
      let ?s1 = "visit E board a lm (s\<lparr>queue := rest\<rparr>)"
      have st: "step E board depth s = Inr ?s1"
        by (rule step_visit [OF q True])
      have v1: "valid ?s1"
        using less.prems q by (auto simp: valid_def visit_fields)
      from less.hyps [OF work_visit [OF q] v1]
      obtain s' where "bfs E board depth ?s1 = Some (Inr s')" "queue s' = []"
          "\<exists>ext. boards s' = boards ?s1 @ ext"
        by blast
      then show ?thesis
        using st q by (subst bfs.simps) (simp add: visit_fields)
    next
      case False
      then have k: "k < depth" by simp
      let ?ms = "legal_moves E (position (boards s ! a))"
      let ?s1 = "s\<lparr>boards := boards s @ map (push E (boards s ! a)) ?ms,
                    queue := rest @ children (length (boards s)) k ?ms\<rparr>"
      have st: "step E board depth s = Inr ?s1"
        by (rule step_expand [OF q k a])
      have v1: "valid ?s1"
        by (rule valid_expand [OF q less.prems])
      from less.hyps [OF work_expand [OF q k less.prems] v1]
      obtain s' ext where "bfs E board depth ?s1 = Some (Inr s')" "queue s' = []"
          "boards s' = boards ?s1 @ ext"
        by blast
      then show ?thesis
        using st q by (subst bfs.simps) simp
    qed
  qed
qed


lemma initial_state_fields:
  "boards (initial_state E st board) = st @ [st ! board]"
  "queue (initial_state E st board) = [(length st, 0, None)]"
  "best_move (initial_state E st board) = None"
  by (simp_all add: initial_state_def copy_id)

lemma valid_initial_state: "valid (initial_state E st board)"
  by (simp add: valid_def initial_state_fields)

text \<open>
  C8. \<^verbatim>\<open>Sciasa.search\<close> on a board of the store always completes, without an
  exception, and leaves every board object that existed before the call as it was, the
  caller's board among them: it pushes and pops on the copies it has appended to the store
  only, and each pop undoes the push before it. The other strategies read the board and
  call neither \<^verbatim>\<open>push\<close> nor \<^verbatim>\<open>pop\<close>.
\<close>

theorem Sciasa_search_leaves_board:
  assumes "board < length st"
  shows "\<exists>r st'. Sciasa_search E st board args = Some (Inr (r, st'))
           \<and> take (length st) st' = st \<and> st' ! board = st ! board"
proof -
  from bfs_terminates [OF valid_initial_state]
  obtain s' ext where s': "bfs E board (search_depth args) (initial_state E st board) = Some (Inr s')"
      and ext: "boards s' = boards (initial_state E st board) @ ext"
    by blast
  have "boards s' = st @ (st ! board # ext)"
    using ext by (simp add: initial_state_fields)
  then have "take (length st) (boards s') = st" "boards s' ! board = st ! board"
    using assms by (simp_all add: nth_append)
  then show ?thesis
    using s' by (simp add: Sciasa_search_def)
qed

theorem Sciasa_search_leaves_board_witness:
  "0 < length [board_at 0]
   \<and> (\<exists>r st'. Sciasa_search toy [board_at 0] 0 [] = Some (Inr (r, st'))
         \<and> take (length [board_at 0]) st' = [board_at 0] \<and> st' ! 0 = [board_at 0] ! 0)"
proof -
  have 1: "0 < length [board_at 0]"
    by simp
  from Sciasa_search_leaves_board [OF 1, of toy "[]"] 1 show ?thesis
    by blast
qed

lemma bfs_drain:
  assumes "\<forall>(a, k, lm) \<in> set (queue s).
             k < depth \<and> a < length (boards s) \<and> legal_moves E (position (boards s ! a)) = []"
  shows "bfs E board depth s = Some (Inr (s\<lparr>queue := []\<rparr>))"
  using assms
proof (induction "queue s" arbitrary: s)
  case Nil
  then have "queue s = []" by simp
  then show ?case
    by (subst bfs.simps) simp
next
  case (Cons item rest)
  obtain a k lm where item: "item = (a, k, lm)"
    by (cases item)
  have q: "queue s = (a, k, lm) # rest"
    using Cons.hyps(2) item by simp
  have h: "k < depth" "a < length (boards s)" "legal_moves E (position (boards s ! a)) = []"
    using Cons.prems q by auto
  have st: "step E board depth s = Inr (s\<lparr>queue := rest\<rparr>)"
    using step_expand [OF q h(1,2), of E board] h(3) by (simp add: children_Nil)
  have "bfs E board depth (s\<lparr>queue := rest\<rparr>) = Some (Inr (s\<lparr>queue := rest\<rparr>\<lparr>queue := []\<rparr>))"
  proof (rule Cons.hyps(1))
    show "rest = queue (s\<lparr>queue := rest\<rparr>)" by simp
    show "\<forall>(a, k, lm) \<in> set (queue (s\<lparr>queue := rest\<rparr>)).
             k < depth \<and> a < length (boards (s\<lparr>queue := rest\<rparr>))
             \<and> legal_moves E (position (boards (s\<lparr>queue := rest\<rparr>) ! a)) = []"
      using Cons.prems q by auto
  qed
  then show ?case
    using st q by (subst bfs.simps) simp
qed


text \<open>
  C9. When the root has legal moves and each of them leads to a position without legal
  moves, \<^verbatim>\<open>Sciasa.search\<close> at its default depth 2 visits no node at depth 2, never
  assigns \<^verbatim>\<open>best_move\<close> and returns \<^verbatim>\<open>PlayResult(None, None)\<close>. Such a root
  exists: position 10 of the small engine.
\<close>

theorem Sciasa_search_no_move:
  assumes "board < length st"
    and "legal_moves E (position (st ! board)) \<noteq> []"
    and "\<forall>m \<in> set (legal_moves E (position (st ! board))).
           legal_moves E (make_move E (position (st ! board)) m) = []"
  shows "\<exists>st'. Sciasa_search E st board [] = Some (Inr (PlayResult None None, st'))"
proof -
  let ?s0 = "initial_state E st board"
  let ?b = "st ! board"
  let ?ms = "legal_moves E (position ?b)"
  let ?s1 = "?s0\<lparr>boards := boards ?s0 @ map (push E ?b) ?ms,
                 queue := [] @ children (length (boards ?s0)) 0 ?ms\<rparr>"
  have q: "queue ?s0 = (length st, 0, None) # []"
    by (simp add: initial_state_fields)
  have b0: "boards ?s0 ! length st = ?b"
    by (simp add: initial_state_fields)
  have "step E board 2 ?s0 = Inr ?s1"
    using step_expand [OF q, of 2 E board] b0 by (simp add: initial_state_fields)
  moreover have "bfs E board 2 ?s1 = Some (Inr (?s1\<lparr>queue := []\<rparr>))"
  proof (rule bfs_drain, clarify)
    fix a k lm
    assume "(a, k, lm) \<in> set (queue ?s1)"
    then have "(a, k, lm) \<in> set (children (Suc (length st)) 0 ?ms)"
      by (simp add: initial_state_fields)
    from children_elem [OF this]
    obtain i where i: "i < length ?ms" "a = Suc (length st) + i" "k = 1"
      by auto
    have "boards ?s1 ! a = push E ?b (?ms ! i)"
      using i by (simp add: initial_state_fields nth_append)
    then have "legal_moves E (position (boards ?s1 ! a)) = []"
      using assms(3) i(1) by (simp add: position_push)
    then show "k < 2 \<and> a < length (boards ?s1) \<and> legal_moves E (position (boards ?s1 ! a)) = []"
      using i by (simp add: initial_state_fields)
  qed
  ultimately have "bfs E board 2 ?s0 = Some (Inr (?s1\<lparr>queue := []\<rparr>))"
    using q by (subst bfs.simps) simp
  then show ?thesis
    by (simp add: Sciasa_search_def search_depth_def initial_state_fields)
qed

theorem Sciasa_search_no_move_witness:
  "0 < length [board_at 10]
   \<and> legal_moves toy (position ([board_at 10] ! 0)) = [''h5f7'']
   \<and> legal_moves toy (make_move toy (position ([board_at 10] ! 0)) ''h5f7'') = []
   \<and> (\<exists>st'. Sciasa_search toy [board_at 10] 0 [] = Some (Inr (PlayResult None None, st')))"
proof -
  have 1: "0 < length [board_at 10]"
    by simp
  have 2: "legal_moves toy (position ([board_at 10] ! 0)) = [''h5f7'']"
    by (simp add: toy_def toy_legal_moves_def board_at_def)
  have 3: "\<forall>m \<in> set (legal_moves toy (position ([board_at 10] ! 0))).
         legal_moves toy (make_move toy (position ([board_at 10] ! 0)) m) = []"
    by (simp add: toy_def toy_legal_moves_def toy_make_move_def board_at_def)
  have 4: "legal_moves toy (position ([board_at 10] ! 0)) \<noteq> []"
    using 2 by simp
  have 5: "legal_moves toy (make_move toy (position ([board_at 10] ! 0)) ''h5f7'') = []"
    using 2 3 by simp
  from Sciasa_search_no_move [OF 1 4 3] 1 2 5 show ?thesis
    by blast
qed





subsection \<open>The move the search returns\<close>

text \<open>
  When every queued node is at the target depth the loop only evaluates: the best move
  at the end is the leading move of one of them. At depth 1 these are the root's
  children, so the search returns a legal move of the root.
\<close>

lemma visit_best_move:
  "best_move (visit E board a lm s) = best_move s \<or> best_move (visit E board a lm s) = lm"
  "unset E board s \<Longrightarrow> best_move (visit E board a lm s) = lm"
  by (simp_all add: visit_def unset_def Let_def)

lemma bfs_visits:
  assumes "\<forall>(a, k, lm) \<in> set (queue s). depth \<le> k"
  shows "\<exists>s'. bfs E board depth s = Some (Inr s') \<and> boards s' = boards s
           \<and> best_move s' \<in> insert (best_move s) (set (map (snd \<circ> snd) (queue s)))
           \<and> (unset E board s \<and> queue s \<noteq> []
                \<longrightarrow> best_move s' \<in> set (map (snd \<circ> snd) (queue s)))"
  using assms
proof (induction "queue s" arbitrary: s)
  case Nil
  then have "queue s = []" by simp
  then show ?case
    by (subst bfs.simps) simp
next
  case (Cons item rest)
  obtain a k lm where item: "item = (a, k, lm)"
    by (cases item)
  have q: "queue s = (a, k, lm) # rest"
    using Cons.hyps(2) item by simp
  have k: "depth \<le> k"
    using Cons.prems q by auto
  let ?s1 = "visit E board a lm (s\<lparr>queue := rest\<rparr>)"
  have st: "step E board depth s = Inr ?s1"
    by (rule step_visit [OF q k])
  have "\<exists>s'. bfs E board depth ?s1 = Some (Inr s') \<and> boards s' = boards ?s1
           \<and> best_move s' \<in> insert (best_move ?s1) (set (map (snd \<circ> snd) (queue ?s1)))
           \<and> (unset E board ?s1 \<and> queue ?s1 \<noteq> []
                \<longrightarrow> best_move s' \<in> set (map (snd \<circ> snd) (queue ?s1)))"
  proof (rule Cons.hyps(1))
    show "rest = queue ?s1" by (simp add: visit_fields)
    show "\<forall>(a, k, lm) \<in> set (queue ?s1). depth \<le> k"
      using Cons.prems q by (auto simp: visit_fields)
  qed
  then obtain s' where s': "bfs E board depth ?s1 = Some (Inr s')" "boards s' = boards s"
      "best_move s' \<in> insert (best_move ?s1) (set (map (snd \<circ> snd) rest))"
    by (auto simp: visit_fields)
  have b: "bfs E board depth s = Some (Inr s')"
    using st q s'(1) by (subst bfs.simps) simp
  have m1: "best_move ?s1 = best_move s \<or> best_move ?s1 = lm"
    using visit_best_move(1) [of E board a lm "s\<lparr>queue := rest\<rparr>"] by simp
  have m2: "best_move ?s1 = lm" if "unset E board s"
    using visit_best_move(2) [of E board "s\<lparr>queue := rest\<rparr>" a lm] that
    by (simp add: unset_def)
  show ?case
    using b s'(2,3) m1 m2 q by auto
qed

lemma Sciasa_search_depth_one:
  assumes "board < length st" and "legal_moves E (position (st ! board)) \<noteq> []"
  shows "\<exists>m \<in> set (legal_moves E (position (st ! board))). \<exists>st'.
           Sciasa_search E st board [IntArg 1] = Some (Inr (PlayResult (Some m) None, st'))"
proof -
  let ?s0 = "initial_state E st board"
  let ?b = "st ! board"
  let ?ms = "legal_moves E (position ?b)"
  let ?s1 = "?s0\<lparr>boards := boards ?s0 @ map (push E ?b) ?ms,
                 queue := [] @ children (length (boards ?s0)) 0 ?ms\<rparr>"
  have q: "queue ?s0 = (length st, 0, None) # []"
    by (simp add: initial_state_fields)
  have b0: "boards ?s0 ! length st = ?b"
    by (simp add: initial_state_fields)
  have st: "step E board 1 ?s0 = Inr ?s1"
    using step_expand [OF q, of 1 E board] b0 by (simp add: initial_state_fields)
  have lms: "set (map (snd \<circ> snd) (queue ?s1)) \<subseteq> Some ` set ?ms"
  proof
    fix x
    assume "x \<in> set (map (snd \<circ> snd) (queue ?s1))"
    then obtain a k where "(a, k, x) \<in> set (children (length (boards ?s0)) 0 ?ms)"
      by auto
    from children_elem [OF this] show "x \<in> Some ` set ?ms"
      by auto
  qed
  have ks: "\<forall>(a, k, lm) \<in> set (queue ?s1). 1 \<le> k"
  proof clarify
    fix a k lm
    assume "(a, k, lm) \<in> set (queue ?s1)"
    then have "(a, k, lm) \<in> set (children (length (boards ?s0)) 0 ?ms)"
      by simp
    from children_elem [OF this] show "1 \<le> k"
      by auto
  qed
  have un: "unset E board ?s1"
    using assms(1) by (simp add: unset_def initial_state_def nth_append)
  have ne: "queue ?s1 \<noteq> []"
    using assms(2) by (cases ?ms) (simp_all add: children_Cons)
  from bfs_visits [OF ks, of E board] un ne
  obtain s' where s': "bfs E board 1 ?s1 = Some (Inr s')"
      "best_move s' \<in> set (map (snd \<circ> snd) (queue ?s1))"
    by blast
  have "bfs E board 1 ?s0 = Some (Inr s')"
    using st q s'(1) by (subst bfs.simps) simp
  moreover obtain m where "m \<in> set ?ms" "best_move s' = Some m"
    using s'(2) lms by auto
  ultimately show ?thesis
    by (auto simp: Sciasa_search_def search_depth_def)
qed

text \<open>
  C1 on the code. From position 0 the legal moves are e2e4 and d2d4; the search at its
  default depth returns e7e5, the reply to e2e4, which is not a legal move of the root.
  From position 10, whose only move ends the game, it returns the move \<^verbatim>\<open>None\<close>.
\<close>

theorem Sciasa_search_illegal_move:
  "legal_moves toy (position (board_at 0)) = [''e2e4'', ''d2d4'']
   \<and> map_option (map_sum id fst) (Sciasa_search toy [board_at 0] 0 [])
       = Some (Inr \<lparr>move = Some ''e7e5'', ponder = None, draw_offered = False\<rparr>)
   \<and> ''e7e5'' \<notin> set (legal_moves toy (position (board_at 0)))
   \<and> legal_moves toy (position (board_at 10)) = [''h5f7'']
   \<and> map_option (map_sum id fst) (Sciasa_search toy [board_at 10] 0 [])
       = Some (Inr \<lparr>move = None, ponder = None, draw_offered = False\<rparr>)"
  by (simp add: Sciasa_search_def bfs.simps step_def initial_state_def search_depth_def
      toy_def toy_legal_moves_def toy_make_move_def board_at_def push_def pop_def copy_def
      visit_def evaluate_board_def piece_values_def toy_pieces_def PlayResult_def)

text \<open>
  C2 on the code. The first round of the loop queues the two root moves at depth 1, each
  as its own leading move. The second round expands the node reached by e2e4, whose
  leading move is e2e4, and queues its child at depth 2 with the leading move e7e5: the
  move just played, not the parent's field.
\<close>

theorem step_stores_last_move:
  "map_sum id queue (step toy 0 2 (initial_state toy [board_at 0] 0))
     = Inr [(2, 1, Some ''e2e4''), (3, 1, Some ''d2d4'')]
   \<and> (case step toy 0 2 (initial_state toy [board_at 0] 0) of
         Inl e \<Rightarrow> Inl e
       | Inr s \<Rightarrow> map_sum id queue (step toy 0 2 s))
     = Inr [(3, 1, Some ''d2d4''), (4, 2, Some ''e7e5'')]"
  by (simp add: step_def initial_state_def
      toy_def toy_legal_moves_def toy_make_move_def board_at_def push_def pop_def copy_def)

end
